theory Spec2Isabelle
  imports Complex_Main "HOL-Library.Word" "HOL-Library.Log_Nat"
begin

unbundle bit_operations_syntax

section \<open>Python values, exceptions and images\<close>

text \<open>
  The module \<open>items/processors.py\<close> hides a pickled payload in the least significant bits
  of the red channel of an image (\<open>lsb_encode\<close>, \<open>lsb_decode\<close>) and computes the size
  of a visible watermark from the sizes of the image and of the watermark
  (\<open>add_watermark\<close>). The functions are embedded here with exceptions as values:
  a result is \<open>Inl\<close> of the exception raised or \<open>Inr\<close> of the value returned.
\<close>

type_synonym byte = "8 word"

datatype pyexn =
    ValueError | ZeroDivisionError | OverflowError | UnpicklingError | EOFError
  | Unmodelled

text \<open>
  The payload values. A \<open>str\<close> is held as its UTF-8 bytes; \<open>PyStr []\<close> is the empty
  string \<open>''\<close>.
\<close>

datatype pyval = PyNone | PyInt int | PyStr "byte list" | PyTuple "pyval list"

text \<open>
  A PIL image is its size \<open>(width, height)\<close> and the pixel data of each of its bands in
  raster order; a band on its own is an image of mode \<open>L\<close>, one byte a pixel.
\<close>

record band =
  band_size :: "nat \<times> nat"
  band_data :: "byte list"

record image =
  image_size :: "nat \<times> nat"
  image_bands :: "byte list list"

definition wf_image :: "image \<Rightarrow> bool" where
  "wf_image im \<longleftrightarrow>
     (\<forall>d \<in> set (image_bands im). length d = fst (image_size im) * snd (image_size im))"

text \<open>\<open>Image.split\<close>: one \<open>L\<close> image a band, each of the size of the image.\<close>

definition split :: "image \<Rightarrow> band list" where
  "split im = map (\<lambda>d. \<lparr>band_size = image_size im, band_data = d\<rparr>) (image_bands im)"

text \<open>
  \<open>Image.merge("RGB", (r, g, b))\<close>: the bands must have the size of the first one, or
  PIL raises \<open>ValueError\<close> (size mismatch).
\<close>

definition merge_RGB :: "band \<times> band \<times> band \<Rightarrow> pyexn + image" where
  "merge_RGB bs = (case bs of (r, g, b) \<Rightarrow>
     if band_size g \<noteq> band_size r \<or> band_size b \<noteq> band_size r then Inl ValueError
     else Inr \<lparr>image_size = band_size r, image_bands = [band_data r, band_data g, band_data b]\<rparr>)"

text \<open>
  \<open>Image.frombytes(data, size, mode='L')\<close>, as in the Pillow releases the module runs
  on (it calls \<open>ImageDraw.textsize\<close>, which Pillow 10 removed). For a size with a zero
  dimension the decoder cannot be set on the image and PIL raises \<open>ValueError\<close> (tile
  cannot extend outside image). Otherwise the raw decoder fills the \<open>width * height\<close>
  pixels from the front of the data and stops there: data that is too short raises
  \<open>ValueError\<close> (not enough image data), data behind the last pixel is not read.
\<close>

definition frombytes :: "byte list \<Rightarrow> nat \<times> nat \<Rightarrow> pyexn + band" where
  "frombytes data sz =
     (if fst sz = 0 \<or> snd sz = 0 then Inl ValueError
      else if length data < fst sz * snd sz then Inl ValueError
      else Inr \<lparr>band_size = sz, band_data = take (fst sz * snd sz) data\<rparr>)"

section \<open>numpy bit packing\<close>

text \<open>
  \<open>np.unpackbits\<close> on a \<open>uint8\<close> array: eight elements of value 0 or 1 for each byte,
  the most significant bit first.
\<close>

definition unpack_byte :: "byte \<Rightarrow> byte list" where
  "unpack_byte b = map (\<lambda>i. if bit b i then 1 else 0) (rev [0..<8])"

definition unpackbits :: "byte list \<Rightarrow> byte list" where
  "unpackbits bs = concat (map unpack_byte bs)"

text \<open>
  \<open>np.packbits\<close>: every group of eight elements becomes a byte, the first element its
  most significant bit, an element counting as 1 when it is not zero; the last group is
  filled with zero bits at the end.
\<close>

definition pack_byte :: "byte list \<Rightarrow> byte" where
  "pack_byte xs = foldl (\<lambda>acc x. 2 * acc + (if x \<noteq> 0 then 1 else 0)) 0
                    (xs @ replicate (8 - length xs) 0)"

fun packbits :: "byte list \<Rightarrow> byte list" where
  "packbits [] = []"
| "packbits (x # xs) = pack_byte (take 8 (x # xs)) # packbits (drop 8 (x # xs))"

section \<open>ImageMath on the red channel\<close>

text \<open>
  \<open>ImageMath.eval\<close> computes on mode \<open>I\<close> (integer) pixels; the conversion to mode
  \<open>L\<close> clips a value to 0..255.
\<close>

definition clip8 :: "int \<Rightarrow> byte" where
  "clip8 v = (if v \<le> 0 then 0 else if 255 \<le> v then 255 else word_of_int v)"

text \<open>
  Line 95, \<open>ImageMath.eval("convert(a&0xFE|b&0x1,'L')", a=red, b=watermark)\<close>; in Python
  \<open>&\<close> binds tighter than \<open>|\<close>. Both operands have the size of the image.
\<close>

definition imagemath_embed :: "band \<Rightarrow> band \<Rightarrow> band" where
  "imagemath_embed a b =
     \<lparr>band_size = band_size a,
      band_data = map2 (\<lambda>p q. clip8 ((uint p AND 0xFE) OR (uint q AND 0x1)))
                    (band_data a) (band_data b)\<rparr>"

text \<open>
  Lines 103 and 104, \<open>ImageMath.eval("(a&0x1)*0x01", a=red)\<close> followed by
  \<open>convert('L')\<close>.
\<close>

definition imagemath_extract :: "band \<Rightarrow> band" where
  "imagemath_extract a =
     \<lparr>band_size = band_size a,
      band_data = map (\<lambda>p. clip8 ((uint p AND 0x1) * 0x01)) (band_data a)\<rparr>"

section \<open>lsb\_encode and lsb\_decode\<close>

text \<open>
  \<open>pickle.dump\<close> and \<open>pickle.load\<close> are parameters: \<open>dump\<close> gives the bytes of a
  value or raises, \<open>load\<close> reads a value from the front of a byte string or raises.
  \<open>[0] * n\<close> is the empty list for a negative \<open>n\<close>, as \<open>replicate\<close> of a truncated
  difference is.
\<close>

definition lsb_encode :: "(pyval \<Rightarrow> pyexn + byte list) \<Rightarrow> pyval \<Rightarrow> image \<Rightarrow> pyexn + image" where
  "lsb_encode dump data im =
     (case dump data of
        Inl e \<Rightarrow> Inl e
      | Inr data_bytes \<Rightarrow>
          let data_bits_list = unpackbits data_bytes;
              data_bits_list = data_bits_list @
                replicate (fst (image_size im) * snd (image_size im) - length data_bits_list) 0
          in (case frombytes data_bits_list (image_size im) of
                Inl e \<Rightarrow> Inl e
              | Inr watermark \<Rightarrow>
                  (case split im of
                     [red, green, blue] \<Rightarrow>
                       merge_RGB (imagemath_embed red watermark, green, blue)
                   | _ \<Rightarrow> Inl ValueError)))"

text \<open>
  The \<open>try\<close> block covers the whole body, and its handler catches \<open>UnpicklingError\<close>
  only: then the result is the empty string. Every other exception leaves the function.
\<close>

definition lsb_decode :: "(byte list \<Rightarrow> pyexn + pyval) \<Rightarrow> image \<Rightarrow> pyexn + pyval" where
  "lsb_decode load im =
     (case split im of
        [red, green, blue] \<Rightarrow>
          let watermark = imagemath_extract red;
              watermark_bytes = band_data watermark;
              watermark_bytes_array = packbits watermark_bytes
          in (case load watermark_bytes_array of
                Inl e \<Rightarrow> if e = UnpicklingError then Inr (PyStr []) else Inl e
              | Inr v \<Rightarrow> Inr v)
      | _ \<Rightarrow> Inl ValueError)"

text \<open>
  The pixels of the \<open>watermark\<close> image that lines 91 to 93 make from the pickled bytes
  for an image of \<open>n\<close> pixels: the bits, filled with zeros up to \<open>n\<close> and cut at
  \<open>n\<close>.
\<close>

definition watermark_bits :: "byte list \<Rightarrow> nat \<Rightarrow> byte list" where
  "watermark_bits data_bytes n =
     take n (unpackbits data_bytes @ replicate (n - length (unpackbits data_bytes)) 0)"

section \<open>A fragment of pickle\<close>

text \<open>
  The standard library's \<open>pickle\<close>, for the values and the byte strings the theorems are
  tried on: \<open>None\<close> and ASCII strings shorter than 256 bytes in protocol 4 (the default of
  Python 3.8 and later). Outside of the fragment the result is \<open>Unmodelled\<close>.

  \<open>dump\<close> writes \<open>PROTO 4\<close>, a \<open>FRAME\<close> with its length in eight little-endian bytes
  when the frame holds four bytes or more, and the value: \<open>NONE\<close>, or
  \<open>SHORT_BINUNICODE\<close> with one length byte and \<open>MEMOIZE\<close>; then \<open>STOP\<close>.
\<close>

definition le_bytes :: "nat \<Rightarrow> nat \<Rightarrow> byte list" where
  "le_bytes k n = map (\<lambda>i. word_of_nat (n div 256 ^ i)) [0..<k]"

definition le_value :: "byte list \<Rightarrow> nat" where
  "le_value bs = foldr (\<lambda>b acc. unat b + 256 * acc) bs 0"

definition ascii :: "byte list \<Rightarrow> bool" where
  "ascii s \<longleftrightarrow> list_all (\<lambda>c. c < 0x80) s"

definition pickle_dump :: "pyval \<Rightarrow> pyexn + byte list" where
  "pickle_dump v =
     (case v of
        PyNone \<Rightarrow> Inr [0x80, 0x04, 0x4E, 0x2E]
      | PyStr s \<Rightarrow>
          if length s < 256 \<and> ascii s
          then Inr ([0x80, 0x04, 0x95] @ le_bytes 8 (length s + 4) @
                    [0x8C, word_of_nat (length s)] @ s @ [0x94, 0x2E])
          else Inl Unmodelled
      | _ \<Rightarrow> Inl Unmodelled)"

text \<open>
  \<open>load\<close> runs the opcodes on a stack until \<open>STOP\<close>, which returns the top of the stack;
  the bytes behind \<open>STOP\<close> are not read. The end of the input where an opcode is expected
  raises \<open>EOFError\<close> (Ran out of input); input that ends inside an argument, a pop from
  the empty stack and a byte that is no opcode (as \<open>0x00\<close>) raise \<open>UnpicklingError\<close>; a
  protocol above 5 raises \<open>ValueError\<close>, a frame length of \<open>2 ^ 63\<close> or more
  \<open>OverflowError\<close>.
\<close>

function pickle_run :: "pyval list \<Rightarrow> byte list \<Rightarrow> pyexn + pyval" where
  "pickle_run stack [] = Inl EOFError"
| "pickle_run stack (opcode # rest) =
     (if opcode = 0x80 then
        (case rest of
           [] \<Rightarrow> Inl UnpicklingError
         | proto # rest' \<Rightarrow> if 5 < proto then Inl ValueError else pickle_run stack rest')
      else if opcode = 0x95 then
        (if length rest < 8 then Inl UnpicklingError
         else if 2 ^ 63 \<le> le_value (take 8 rest) then Inl OverflowError
         else if length (drop 8 rest) < le_value (take 8 rest) then Inl UnpicklingError
         else pickle_run stack (drop 8 rest))
      else if opcode = 0x4E then pickle_run (PyNone # stack) rest
      else if opcode = 0x8C then
        (case rest of
           [] \<Rightarrow> Inl UnpicklingError
         | n # rest' \<Rightarrow>
             if length rest' < unat n then Inl UnpicklingError
             else if ascii (take (unat n) rest')
               then pickle_run (PyStr (take (unat n) rest') # stack) (drop (unat n) rest')
             else Inl Unmodelled)
      else if opcode = 0x94 then
        (if stack = [] then Inl UnpicklingError else pickle_run stack rest)
      else if opcode = 0x2E then
        (case stack of [] \<Rightarrow> Inl UnpicklingError | v # _ \<Rightarrow> Inr v)
      else if opcode = 0x00 then Inl UnpicklingError
      else Inl Unmodelled)"
  by pat_completeness auto
termination
  by (relation "measure (\<lambda>(stack, bs). length bs)") auto

definition pickle_load :: "byte list \<Rightarrow> pyexn + pyval" where
  "pickle_load bs = pickle_run [] bs"

text \<open>
  An 8 by 1 RGB image that was never watermarked: the least significant bits of its red
  pixels spell the byte \<open>0x4E\<close>, the opcode \<open>NONE\<close>.
\<close>

definition plain_image :: image where
  "plain_image = \<lparr>image_size = (8, 1),
                   image_bands = [[254, 255, 254, 254, 255, 255, 255, 254],
                                  [0, 0, 0, 0, 0, 0, 0, 0],
                                  [0, 0, 0, 0, 0, 0, 0, 0]]\<rparr>"

section \<open>The size of the watermark in add\_watermark\<close>

text \<open>
  Python's \<open>float\<close> is the IEEE 754 binary64 format. A finite float is held here as the
  rational number it stands for, and every operation rounds the exact result to the
  nearest number with 53 significant bits, ties to the even one (\<open>rnd\<close>), as the
  hardware does. The exponent is not bounded: the model is exact while the magnitudes
  stay between \<open>2 ^ -1022\<close> and \<open>2 ^ 1024\<close>, which the sizes of images (below
  \<open>2 ^ 31\<close> in PIL) do by far.

  \<open>ilog2 q\<close> is the exponent \<open>e\<close> with \<open>2 ^ e \<le> q < 2 ^ (e + 1)\<close> of a positive
  \<open>q\<close>, found from the bit lengths of numerator and denominator.
\<close>

definition ilog2 :: "rat \<Rightarrow> int" where
  "ilog2 q = (let (a, b) = quotient_of q; k = bitlen a - bitlen b
              in if 2 powi k \<le> q then k else k - 1)"

definition round_half_even :: "rat \<Rightarrow> int" where
  "round_half_even x =
     (let f = \<lfloor>x\<rfloor>; r = x - of_int f
      in if r < 1 / 2 then f else if 1 / 2 < r then f + 1 else if even f then f else f + 1)"

definition rnd :: "rat \<Rightarrow> rat" where
  "rnd q = (if q = 0 then 0
            else let u = 2 powi (ilog2 \<bar>q\<bar> - 52)
                 in sgn q * of_int (round_half_even (\<bar>q\<bar> / u)) * u)"

text \<open>
  The conversion of an \<open>int\<close> operand of a mixed operation, the product, the quotient
  (with and without the \<open>ZeroDivisionError\<close> of a zero divisor) and \<open>int(x)\<close>, which
  cuts the fraction off towards zero.
\<close>

definition float_of_int :: "int \<Rightarrow> rat" where
  "float_of_int n = rnd (of_int n)"

definition fmul :: "rat \<Rightarrow> rat \<Rightarrow> rat" where
  "fmul a b = rnd (a * b)"

definition fquot :: "rat \<Rightarrow> rat \<Rightarrow> rat" where
  "fquot a b = rnd (a / b)"

definition fdiv :: "rat \<Rightarrow> rat \<Rightarrow> pyexn + rat" where
  "fdiv a b = (if b = 0 then Inl ZeroDivisionError else Inr (fquot a b))"

text \<open>
  \<open>/\<close> on two \<open>int\<close>s: the exact quotient of the integers, rounded once.
\<close>

definition int_quot :: "int \<Rightarrow> int \<Rightarrow> rat" where
  "int_quot a b = rnd (of_int a / of_int b)"

definition int_truediv :: "int \<Rightarrow> int \<Rightarrow> pyexn + rat" where
  "int_truediv a b = (if b = 0 then Inl ZeroDivisionError else Inr (int_quot a b))"

definition int_of_float :: "rat \<Rightarrow> int" where
  "int_of_float x = (if x < 0 then - \<lfloor>- x\<rfloor> else \<lfloor>x\<rfloor>)"

definition raise_bind :: "pyexn + 'a \<Rightarrow> ('a \<Rightarrow> pyexn + 'b) \<Rightarrow> pyexn + 'b" where
  "raise_bind m f = (case m of Inl e \<Rightarrow> Inl e | Inr x \<Rightarrow> f x)"

text \<open>
  Lines 32 to 59 of \<open>add_watermark\<close>: from the size of the image and the size of the
  watermark to \<open>new_size\<close>.
\<close>

definition new_size :: "int \<Rightarrow> int \<Rightarrow> int \<Rightarrow> int \<Rightarrow> pyexn + int \<times> int" where
  "new_size image_x image_y watermark_x watermark_y =
     raise_bind (int_truediv image_x image_y) (\<lambda>temp_image.
     raise_bind (int_truediv watermark_x watermark_y) (\<lambda>temp_watermark.
     raise_bind (fdiv temp_watermark temp_image) (\<lambda>temp.
     let constant_value = (if 1 < temp_watermark then rnd (1071 / 1000) else rnd (5419 / 1000));
         scale_size = fmul constant_value temp
     in raise_bind (fdiv (float_of_int image_x) (fmul scale_size (float_of_int watermark_x))) (\<lambda>scale_x.
        raise_bind (fdiv (float_of_int image_y) (fmul scale_size (float_of_int watermark_y))) (\<lambda>scale_y.
        let watermark_scale = max scale_x scale_y
        in Inr (int_of_float (fmul (float_of_int watermark_x) watermark_scale),
                int_of_float (fmul (float_of_int watermark_y) watermark_scale)))))))"

text \<open>
  The fitter in the words of the specification, steps 1 to 4, for sizes that are all
  positive (no division by zero), and its step 5, which rounds each dimension to the
  nearest integer.
\<close>

definition spec_watermark_scale :: "int \<Rightarrow> int \<Rightarrow> int \<Rightarrow> int \<Rightarrow> rat" where
  "spec_watermark_scale Wb Hb Wo Ho =
     (let aspectBase = int_quot Wb Hb;
          aspectOverlay = int_quot Wo Ho;
          ratio = fquot aspectOverlay aspectBase;
          fitConstant = (if 1 < aspectOverlay then rnd (1071 / 1000) else rnd (5419 / 1000));
          scaleSize = fmul fitConstant ratio
      in max (fquot (float_of_int Wb) (fmul scaleSize (float_of_int Wo)))
             (fquot (float_of_int Hb) (fmul scaleSize (float_of_int Ho))))"

definition spec_new_size_rounded :: "int \<Rightarrow> int \<Rightarrow> int \<Rightarrow> int \<Rightarrow> int \<times> int" where
  "spec_new_size_rounded Wb Hb Wo Ho =
     (round (fmul (float_of_int Wo) (spec_watermark_scale Wb Hb Wo Ho)),
      round (fmul (float_of_int Ho) (spec_watermark_scale Wb Hb Wo Ho)))"

definition area :: "int \<times> int \<Rightarrow> int" where
  "area s = fst s * snd s"

section \<open>The alpha mask in add\_watermark\<close>

text \<open>
  Line 62, \<open>rgba_watermark.convert("L").point(lambda x: min(x, 90))\<close>. PIL converts an
  RGBA pixel to \<open>L\<close> by the luma sum \<open>(19595 R + 38470 G + 7471 B + 0x8000) >> 16\<close>;
  \<open>point\<close> applies a function to every pixel.
\<close>

definition rgb2l :: "byte \<times> byte \<times> byte \<times> byte \<Rightarrow> byte" where
  "rgb2l px = (case px of (r, g, b, a) \<Rightarrow>
     word_of_nat ((unat r * 19595 + unat g * 38470 + unat b * 7471 + 0x8000) div 65536))"

definition convert_L :: "(byte \<times> byte \<times> byte \<times> byte) list \<Rightarrow> byte list" where
  "convert_L pixels = map rgb2l pixels"

definition point :: "(byte \<Rightarrow> byte) \<Rightarrow> byte list \<Rightarrow> byte list" where
  "point f pixels = map f pixels"

definition rgba_watermark_mask :: "(byte \<times> byte \<times> byte \<times> byte) list \<Rightarrow> byte list" where
  "rgba_watermark_mask rgba_watermark = point (\<lambda>x. min x 90) (convert_L rgba_watermark)"

section \<open>Properties\<close>

subsection \<open>Bytes and bits\<close>

lemma take_bit_Suc_word:
  "take_bit (Suc n) (b::'a::len word) = 2 ^ n * of_bool (bit b n) + take_bit n b"
proof -
  have "word_of_int (take_bit (Suc n) (uint b))
      = (word_of_int (2 ^ n * of_bool (bit (uint b) n) + take_bit n (uint b)) :: 'a word)"
    by (simp only: take_bit_Suc_from_most)
  then show ?thesis
    by (simp add: take_bit_of_int [symmetric] bit_uint_iff del: of_int_of_bool)
qed

lemma pack_fold_unpack:
  "foldl (\<lambda>acc x. 2 * acc + (if x \<noteq> 0 then 1 else 0)) acc
         (map (\<lambda>i. if bit b i then 1 else (0::byte)) (rev [0..<n]))
       = push_bit n acc + take_bit n (b::byte)"
proof (induction n arbitrary: acc)
  case 0
  show ?case by simp
next
  case (Suc n)
  have "foldl (\<lambda>acc x. 2 * acc + (if x \<noteq> 0 then 1 else 0)) acc
         (map (\<lambda>i. if bit b i then 1 else (0::byte)) (rev [0..<Suc n]))
        = push_bit n (2 * acc + (if bit b n then 1 else 0)) + take_bit n b"
    by (simp add: Suc)
  also have "\<dots> = push_bit (Suc n) acc + take_bit (Suc n) b"
    using take_bit_Suc_word [of n b] by (simp add: push_bit_eq_mult algebra_simps)
  finally show ?case .
qed

lemma pack_unpack_byte: "pack_byte (unpack_byte b) = b"
  using pack_fold_unpack [of 0 b 8]
  by (simp add: pack_byte_def unpack_byte_def take_bit_word_eq_self)

lemma length_unpack_byte: "length (unpack_byte b) = 8"
  by (simp add: unpack_byte_def)

lemma length_unpackbits: "length (unpackbits bs) = 8 * length bs"
  by (induction bs) (simp_all add: unpackbits_def length_unpack_byte)

lemma unpack_byte_le1: "x \<in> set (unpack_byte b) \<Longrightarrow> x \<le> 1"
  by (auto simp: unpack_byte_def)

lemma unpackbits_le1: "x \<in> set (unpackbits bs) \<Longrightarrow> x \<le> 1"
  by (auto simp: unpackbits_def dest: unpack_byte_le1)

lemma packbits_unpack_byte_append: "packbits (unpack_byte b @ xs) = b # packbits xs"
proof -
  obtain y ys where e: "unpack_byte b = y # ys"
    using length_unpack_byte [of b] by (cases "unpack_byte b") auto
  have "packbits ((y # ys) @ xs)
      = pack_byte (take 8 ((y # ys) @ xs)) # packbits (drop 8 ((y # ys) @ xs))"
    by simp
  moreover have "take 8 (unpack_byte b @ xs) = unpack_byte b"
    and "drop 8 (unpack_byte b @ xs) = xs"
    by (simp_all add: length_unpack_byte)
  ultimately show ?thesis
    by (simp add: e [symmetric] pack_unpack_byte)
qed

lemma packbits_unpackbits_append: "packbits (unpackbits bs @ xs) = bs @ packbits xs"
  by (induction bs) (simp_all add: unpackbits_def packbits_unpack_byte_append)

lemma pack_byte_zeros: "n \<le> 8 \<Longrightarrow> pack_byte (replicate n 0) = 0"
proof -
  have z: "foldl (\<lambda>acc x. 2 * acc + (if x \<noteq> 0 then 1 else 0)) 0 (replicate m (0::byte))
             = (0::byte)" for m
    by (induction m) simp_all
  assume "n \<le> 8"
  then have "replicate n (0::byte) @ replicate (8 - n) 0 = replicate 8 0"
    by (simp add: replicate_add [symmetric])
  then show ?thesis
    using z [of 8] by (simp add: pack_byte_def)
qed

lemma packbits_zeros: "packbits (replicate n 0) = replicate ((n + 7) div 8) 0"
proof (induction n rule: less_induct)
  case (less n)
  show ?case
  proof (cases n)
    case 0
    then show ?thesis by simp
  next
    case (Suc m)
    have "packbits (replicate n 0)
        = pack_byte (take 8 (replicate n 0)) # packbits (drop 8 (replicate n 0))"
      by (simp add: Suc)
    also have "take 8 (replicate n (0::byte)) = replicate (min 8 n) 0"
      by simp
    also have "pack_byte (replicate (min 8 n) 0) = 0"
      by (rule pack_byte_zeros) simp
    also have "drop 8 (replicate n (0::byte)) = replicate (n - 8) 0"
      by simp
    also have "packbits (replicate (n - 8) 0) = replicate ((n - 8 + 7) div 8) 0"
      by (rule less.IH) (simp add: Suc)
    also have "0 # replicate ((n - 8 + 7) div 8) (0::byte) = replicate ((n + 7) div 8) 0"
    proof -
      have "(n + 7) div 8 = Suc ((n - 8 + 7) div 8)"
        using Suc by arith
      then show ?thesis by simp
    qed
    finally show ?thesis .
  qed
qed

subsection \<open>The pixel operations\<close>

lemma clip8_uint: "clip8 (uint (w::byte)) = w"
proof -
  have "uint w < 256"
    using uint_lt2p [of w] by simp
  moreover have "0 \<le> uint w"
    by simp
  moreover have "word_of_int (uint w) = w"
    by simp
  ultimately show ?thesis
    by (cases "uint w = 0"; cases "uint w = 255") (auto simp: clip8_def)
qed

lemma embed_pixel:
  "clip8 ((uint p AND 0xFE) OR (uint q AND 0x1)) = (p AND 0xFE) OR (q AND 0x1)"
proof -
  have "uint ((p AND 0xFE) OR (q AND 0x1)) = (uint p AND 0xFE) OR (uint q AND 0x1)"
    by (simp add: uint_or uint_and)
  then show ?thesis
    using clip8_uint [of "(p AND 0xFE) OR (q AND 0x1)"] by simp
qed

lemma extract_pixel: "clip8 (uint p AND 0x1) = p AND 0x1"
proof -
  have "uint (p AND 0x1) = uint p AND 0x1"
    by (simp add: uint_and)
  then show ?thesis
    using clip8_uint [of "p AND 0x1"] by simp
qed

lemma byte_FE: "(0xFE::byte) = NOT 1"
  by simp

lemma bit01: "(q::byte) \<le> 1 \<Longrightarrow> q AND 1 = q"
proof -
  assume "q \<le> 1"
  then have "unat q = 0 \<or> unat q = 1"
    by (auto simp: word_le_nat_alt)
  then have "q = 0 \<or> q = 1"
    by (simp add: word_unat_eq_iff)
  then show ?thesis by auto
qed

lemma lsb_of_embed: "(((p::byte) AND 0xFE) OR (q AND 1)) AND 1 = q AND 1"
proof -
  have "(p AND 0xFE) AND 1 = 0"
    unfolding byte_FE by (simp only: and.assoc bit.conj_cancel_left bit.conj_zero_right)
  moreover have "(q AND 1) AND 1 = q AND 1"
    by (simp only: and.assoc and.idem)
  ultimately show ?thesis
    by (simp only: bit.conj_disj_distrib2 or.left_neutral)
qed

lemma upper_of_embed: "(((p::byte) AND 0xFE) OR (q AND 1)) AND 0xFE = p AND 0xFE"
proof -
  have "(q AND 1) AND 0xFE = 0"
    unfolding byte_FE by (simp only: and.assoc bit.conj_cancel_right bit.conj_zero_right)
  moreover have "(p AND 0xFE) AND 0xFE = p AND 0xFE"
    by (simp only: and.assoc and.idem)
  ultimately show ?thesis
    by (simp only: bit.conj_disj_distrib2 or.right_neutral)
qed

lemma embed_data:
  "band_data (imagemath_embed a b)
     = map2 (\<lambda>p q. (p AND 0xFE) OR (q AND 0x1)) (band_data a) (band_data b)"
  by (simp add: imagemath_embed_def embed_pixel)

lemma extract_data: "band_data (imagemath_extract a) = map (\<lambda>p. p AND 0x1) (band_data a)"
  by (simp add: imagemath_extract_def extract_pixel)

lemma extract_embed_data:
  "length (band_data a) = length (band_data b) \<Longrightarrow>
   band_data (imagemath_extract (imagemath_embed a b)) = map (\<lambda>q. q AND 0x1) (band_data b)"
  by (simp add: extract_data embed_data list_eq_iff_nth_eq lsb_of_embed)

lemma map_and1_id: "\<forall>q \<in> set bits. q \<le> 1 \<Longrightarrow> map (\<lambda>q. q AND 0x1) bits = (bits :: byte list)"
  by (induction bits) (simp_all add: bit01)

text \<open>
  Claim C4. For an 8-bit channel of \<open>W * H\<close> pixels and a bit sequence of the same
  length with values 0 or 1, the embed operation of line 95 gives a channel of the same
  size whose pixel \<open>i\<close>, in raster order, is \<open>(channel[i] & 0xFE) | bits[i]\<close>.
\<close>

theorem embed_sets_lsb:
  assumes "length ch = W * H" and "length bits = W * H" and "\<forall>b \<in> set bits. b \<le> 1"
  shows "band_size (imagemath_embed \<lparr>band_size = (W, H), band_data = ch\<rparr>
                                   \<lparr>band_size = (W, H), band_data = bits\<rparr>) = (W, H)
       \<and> length (band_data (imagemath_embed \<lparr>band_size = (W, H), band_data = ch\<rparr>
                                   \<lparr>band_size = (W, H), band_data = bits\<rparr>)) = W * H
       \<and> (\<forall>i < W * H.
            band_data (imagemath_embed \<lparr>band_size = (W, H), band_data = ch\<rparr>
                                   \<lparr>band_size = (W, H), band_data = bits\<rparr>) ! i
              = (ch ! i AND 0xFE) OR bits ! i)"
proof -
  have "(ch ! i AND 0xFE) OR (bits ! i AND 1) = (ch ! i AND 0xFE) OR bits ! i" if "i < W * H" for i
  proof -
    have "bits ! i \<le> 1" using assms that by simp
    then show ?thesis by (simp add: bit01)
  qed
  then show ?thesis
    using assms by (simp add: embed_data) (simp add: imagemath_embed_def)
qed

theorem embed_sets_lsb_witness:
  "length [0xFF, 0x10 :: byte] = 2 * 1 \<and> length [0, 1 :: byte] = 2 * 1
   \<and> band_data (imagemath_embed \<lparr>band_size = (2, 1), band_data = [0xFF, 0x10]\<rparr>
                                   \<lparr>band_size = (2, 1), band_data = [0, 1]\<rparr>) ! 0
        = (0xFF AND 0xFE) OR 0"
  using embed_sets_lsb [of "[0xFF, 0x10]" 2 1 "[0, 1]"] by simp

text \<open>
  Claim C5. Extracting the least significant bits (line 103) of the channel that the
  embed operation (line 95) made from a bit sequence of length \<open>W * H\<close> gives that
  bit sequence back.
\<close>

theorem extract_embed:
  assumes "length ch = W * H" and "length bits = W * H" and "\<forall>b \<in> set bits. b \<le> 1"
  shows "band_data (imagemath_extract
           (imagemath_embed \<lparr>band_size = (W, H), band_data = ch\<rparr>
                            \<lparr>band_size = (W, H), band_data = bits\<rparr>)) = bits"
  using assms by (simp add: extract_embed_data map_and1_id)

theorem extract_embed_witness:
  "length [0xFF, 0x10 :: byte] = 2 * 1 \<and> length [0, 1 :: byte] = 2 * 1
   \<and> band_data (imagemath_extract
           (imagemath_embed \<lparr>band_size = (2, 1), band_data = [0xFF, 0x10]\<rparr>
                            \<lparr>band_size = (2, 1), band_data = [0, 1]\<rparr>)) = [0, 1]"
  using extract_embed [of "[0xFF, 0x10]" 2 1 "[0, 1]"] by simp

subsection \<open>The pickle fragment reads what it wrote\<close>

lemma le_value_le_bytes:
  assumes "n < 65536"
  shows "le_value (le_bytes 8 n) = n"
proof -
  have e: "[0..<8] = [0, 1, 2, 3, 4, 5, 6, 7]"
    by (simp add: upt_conv_Cons)
  have z: "n div 65536 = 0" "n div 16777216 = 0" "n div 4294967296 = 0"
          "n div 1099511627776 = 0" "n div 281474976710656 = 0" "n div 72057594037927936 = 0"
    using assms by simp_all
  have "n div 256 < 256"
    using assms by simp
  then have "n mod 256 + 256 * (n div 256 mod 256) = n"
    by simp
  then show ?thesis
    by (simp add: le_value_def le_bytes_def e unat_of_nat z)
qed

lemma length_le_bytes: "length (le_bytes k n) = k"
  by (simp add: le_bytes_def)

lemma pickle_load_dump:
  assumes "pickle_dump v = Inr bs"
  shows "pickle_load (bs @ pad) = Inr v"
proof (cases v)
  case PyNone
  then show ?thesis
    using assms by (auto simp: pickle_dump_def pickle_load_def)
next
  case (PyStr s)
  with assms have s: "length s < 256" "ascii s"
    and bs: "bs = [0x80, 0x04, 0x95] @ le_bytes 8 (length s + 4) @
                  [0x8C, word_of_nat (length s)] @ s @ [0x94, 0x2E]"
    by (auto simp: pickle_dump_def split: if_splits)
  let ?tail = "[0x8C, word_of_nat (length s)] @ s @ [0x94, 0x2E] @ pad"
  have u: "unat (word_of_nat (length s) :: byte) = length s"
    using s(1) by (simp add: unat_of_nat)
  have frame: "pickle_run [] (0x95 # le_bytes 8 (length s + 4) @ ?tail) = pickle_run [] ?tail"
    using s(1) by (simp add: length_le_bytes le_value_le_bytes)
  have str: "pickle_run [] ?tail = pickle_run [PyStr s] ([0x94, 0x2E] @ pad)"
    using s(2) by (simp add: u)
  have "pickle_load (bs @ pad) = pickle_run [] (0x95 # le_bytes 8 (length s + 4) @ ?tail)"
    by (simp add: bs pickle_load_def)
  also have "\<dots> = pickle_run [PyStr s] ([0x94, 0x2E] @ pad)"
    by (simp only: frame str)
  also have "\<dots> = Inr (PyStr s)"
    by simp
  finally show ?thesis
    using PyStr by simp
qed (use assms in \<open>auto simp: pickle_dump_def\<close>)

subsection \<open>lsb\_encode and lsb\_decode on an RGB image\<close>

lemma embed_size: "band_size (imagemath_embed a b) = band_size a"
  by (simp add: imagemath_embed_def)

lemma length_watermark_bits: "length (watermark_bits bs n) = n"
  by (simp add: watermark_bits_def)

lemma watermark_bits_le1: "x \<in> set (watermark_bits bs n) \<Longrightarrow> x \<le> 1"
  by (auto simp: watermark_bits_def dest!: in_set_takeD dest: unpackbits_le1)



lemma lsb_encode_rgb:
  assumes "image_bands im = [r, g, b]" and "dump data = Inr bs"
    and "0 < fst (image_size im) * snd (image_size im)"
  shows "lsb_encode dump data im =
           Inr \<lparr>image_size = image_size im,
                image_bands =
                  [map2 (\<lambda>p q. (p AND 0xFE) OR (q AND 0x1)) r
                     (watermark_bits bs (fst (image_size im) * snd (image_size im))), g, b]\<rparr>"
proof -
  let ?n = "fst (image_size im) * snd (image_size im)"
  let ?bits = "unpackbits bs @ replicate (?n - length (unpackbits bs)) 0"
  have "\<not> (fst (image_size im) = 0 \<or> snd (image_size im) = 0)"
    using assms(3) by simp
  moreover have "\<not> length ?bits < ?n"
    by simp
  ultimately have fb: "frombytes ?bits (image_size im)
                  = Inr \<lparr>band_size = image_size im, band_data = watermark_bits bs ?n\<rparr>"
    unfolding frombytes_def watermark_bits_def by (simp only: if_False)
  have sp: "split im = [\<lparr>band_size = image_size im, band_data = r\<rparr>,
                        \<lparr>band_size = image_size im, band_data = g\<rparr>,
                        \<lparr>band_size = image_size im, band_data = b\<rparr>]"
    using assms(1) by (simp add: split_def)
  show ?thesis
    unfolding lsb_encode_def Let_def
    by (simp only: assms(2) fb sp sum.case list.case)
       (simp add: merge_RGB_def embed_size embed_data)
qed

lemma lsb_encode_zero_size:
  assumes "fst (image_size im) * snd (image_size im) = 0"
  shows "\<exists>e. lsb_encode dump data im = Inl e"
  using assms by (auto simp: lsb_encode_def frombytes_def Let_def split: sum.splits)

lemma lsb_encode_zero_size_pickled:
  assumes "fst (image_size im) * snd (image_size im) = 0" and "dump data = Inr bs"
  shows "lsb_encode dump data im = Inl ValueError"
  using assms by (auto simp: lsb_encode_def frombytes_def Let_def)

lemma lsb_decode_rgb:
  assumes "image_bands im = [r, g, b]"
  shows "lsb_decode load im =
           (case load (packbits (map (\<lambda>p. p AND 0x1) r)) of
              Inl e \<Rightarrow> if e = UnpicklingError then Inr (PyStr []) else Inl e
            | Inr v \<Rightarrow> Inr v)"
  using assms by (simp add: lsb_decode_def split_def extract_data Let_def)

lemma lsb_of_embedded:
  assumes "length r = length bits" and "\<forall>q \<in> set bits. q \<le> 1"
  shows "map (\<lambda>p. p AND 0x1) (map2 (\<lambda>p q. (p AND 0xFE) OR (q AND 0x1)) r bits)
           = (bits :: byte list)"
proof -
  have "map (\<lambda>p. p AND 0x1) (map2 (\<lambda>p q. (p AND 0xFE) OR (q AND 0x1)) r bits)
      = map (\<lambda>q. q AND 0x1) bits"
    using assms(1) by (simp add: list_eq_iff_nth_eq lsb_of_embed)
  then show ?thesis
    using assms(2) by (simp add: map_and1_id)
qed

text \<open>
  Claim C3. For every RGB image and every payload, an image that \<open>lsb_encode\<close> returns
  has the size of the input, the same green and blue bands, and a red band that agrees
  with the input's in the upper seven bits of every pixel: only the least significant bit
  of the red channel can differ. An image is returned whenever the payload pickles and
  the image has a pixel.
\<close>

theorem lsb_encode_changes_red_lsb_only:
  assumes "image_bands im = [r, g, b]" and "wf_image im"
  shows "(\<forall>w. lsb_encode dump data im = Inr w \<longrightarrow>
            image_size w = image_size im
          \<and> (\<exists>r'. image_bands w = [r', g, b] \<and> length r' = length r
                \<and> (\<forall>i < length r. r' ! i AND 0xFE = r ! i AND 0xFE)))
       \<and> (\<forall>bs. dump data = Inr bs \<and> 0 < fst (image_size im) * snd (image_size im) \<longrightarrow>
            (\<exists>w. lsb_encode dump data im = Inr w))"
proof (intro conjI allI impI)
  let ?n = "fst (image_size im) * snd (image_size im)"
  have len: "length r = ?n"
    using assms by (simp add: wf_image_def)
  fix w
  assume w: "lsb_encode dump data im = Inr w"
  then obtain bs where bs: "dump data = Inr bs"
    by (cases "dump data") (simp_all add: lsb_encode_def)
  have pos: "0 < ?n"
    using lsb_encode_zero_size [of im dump data] w by (cases "?n = 0") auto
  let ?r' = "map2 (\<lambda>p q. (p AND 0xFE) OR (q AND 0x1)) r (watermark_bits bs ?n)"
  have e: "w = \<lparr>image_size = image_size im, image_bands = [?r', g, b]\<rparr>"
    using lsb_encode_rgb [where dump = dump and data = data, OF assms(1) bs pos] w by simp
  show "image_size w = image_size im"
    by (simp add: e)
  have "length ?r' = length r"
    by (simp add: len length_watermark_bits)
  moreover have "\<forall>i < length r. ?r' ! i AND 0xFE = r ! i AND 0xFE"
    by (simp add: len length_watermark_bits upper_of_embed)
  ultimately show "\<exists>r'. image_bands w = [r', g, b] \<and> length r' = length r
                \<and> (\<forall>i < length r. r' ! i AND 0xFE = r ! i AND 0xFE)"
    by (simp add: e)
next
  fix bs
  assume "dump data = Inr bs \<and> 0 < fst (image_size im) * snd (image_size im)"
  then show "\<exists>w. lsb_encode dump data im = Inr w"
    using lsb_encode_rgb [where dump = dump and data = data and bs = bs, OF assms(1)] by simp
qed

theorem lsb_encode_changes_red_lsb_only_witness:
  "\<exists>w r'. lsb_encode pickle_dump PyNone
               \<lparr>image_size = (2, 2),
                image_bands = [[1, 2, 3, 4], [5, 6, 7, 8], [9, 10, 11, 12]]\<rparr> = Inr w
        \<and> image_size w = (2, 2)
        \<and> image_bands w = [r', [5, 6, 7, 8], [9, 10, 11, 12]]
        \<and> length r' = length [1, 2, 3, 4 :: byte]
        \<and> (\<forall>i < length [1, 2, 3, 4 :: byte]. r' ! i AND 0xFE = [1, 2, 3, 4] ! i AND 0xFE)"
proof -
  let ?im = "\<lparr>image_size = (2, 2),
               image_bands = [[1, 2, 3, 4], [5, 6, 7, 8], [9, 10, 11, 12 :: byte]]\<rparr>"
  have h: "image_bands ?im = [[1, 2, 3, 4], [5, 6, 7, 8], [9, 10, 11, 12]]" "wf_image ?im"
    by (simp_all add: wf_image_def)
  have d: "pickle_dump PyNone = Inr [0x80, 0x04, 0x4E, 0x2E]"
    by (simp add: pickle_dump_def)
  note t = lsb_encode_changes_red_lsb_only [OF h, of pickle_dump PyNone]
  from t d obtain w where w: "lsb_encode pickle_dump PyNone ?im = Inr w"
    by auto
  with t show ?thesis
    by auto
qed




text \<open>
  Claim C1. For an RGB image of \<open>W * H\<close> pixels and a payload whose pickled bytes
  \<open>bs\<close> fit (\<open>B * 8 \<le> W * H\<close>), \<open>lsb_decode\<close> of the image that \<open>lsb_encode\<close>
  returns is the payload. The pickle library is taken as it is documented: a pickle is
  never empty, and \<open>load\<close> reads the value that \<open>dump\<close> wrote and does not read the
  bytes behind it (here the zero padding).
\<close>

theorem lsb_roundtrip:
  assumes "image_bands im = [r, g, b]" and "wf_image im" and "dump data = Inr bs"
    and "bs \<noteq> []"
    and "length bs * 8 \<le> fst (image_size im) * snd (image_size im)"
    and "\<And>n. load (bs @ replicate n 0) = Inr data"
  shows "\<exists>w. lsb_encode dump data im = Inr w \<and> lsb_decode load w = Inr data"
proof -
  let ?n = "fst (image_size im) * snd (image_size im)"
  let ?r' = "map2 (\<lambda>p q. (p AND 0xFE) OR (q AND 0x1)) r (watermark_bits bs ?n)"
  let ?w = "\<lparr>image_size = image_size im, image_bands = [?r', g, b]\<rparr>"
  have "0 < length bs * 8"
    using assms(4) by simp
  then have pos: "0 < ?n"
    using assms(5) by (rule less_le_trans)
  have len: "length r = ?n"
    using assms(1,2) by (simp add: wf_image_def)
  have bits: "watermark_bits bs ?n = unpackbits bs @ replicate (?n - length bs * 8) 0"
    using assms(5) by (simp add: watermark_bits_def length_unpackbits mult.commute)
  have enc: "lsb_encode dump data im = Inr ?w"
    using assms(1,3) pos by (rule lsb_encode_rgb)
  have "map (\<lambda>p. p AND 0x1) ?r' = watermark_bits bs ?n"
    by (rule lsb_of_embedded) (simp_all add: len length_watermark_bits watermark_bits_le1)
  then have "packbits (map (\<lambda>p. p AND 0x1) ?r')
               = bs @ replicate ((?n - length bs * 8 + 7) div 8) 0"
    by (simp add: bits packbits_unpackbits_append packbits_zeros)
  then have "lsb_decode load ?w = Inr data"
    using lsb_decode_rgb [of ?w ?r' g b load] assms(6) by simp
  with enc show ?thesis by blast
qed

theorem lsb_roundtrip_witness:
  "\<exists>w. lsb_encode pickle_dump (PyStr [0x68, 0x69])
              \<lparr>image_size = (100, 100),
               image_bands = [replicate 10000 7, replicate 10000 8, replicate 10000 9]\<rparr> = Inr w
       \<and> lsb_decode pickle_load w = Inr (PyStr [0x68, 0x69])"
proof -
  have d: "pickle_dump (PyStr [0x68, 0x69])
             = Inr [0x80, 4, 0x95, 6, 0, 0, 0, 0, 0, 0, 0, 0x8C, 2, 0x68, 0x69, 0x94, 0x2E]"
    by (simp add: pickle_dump_def ascii_def le_bytes_def upt_conv_Cons)
  show ?thesis
    using lsb_roundtrip
      [of "\<lparr>image_size = (100, 100),
            image_bands = [replicate 10000 7, replicate 10000 8, replicate 10000 9]\<rparr>"
          "replicate 10000 7" "replicate 10000 8" "replicate 10000 9"
          pickle_dump "PyStr [0x68, 0x69]"
          "[0x80, 4, 0x95, 6, 0, 0, 0, 0, 0, 0, 0, 0x8C, 2, 0x68, 0x69, 0x94, 0x2E]"
          pickle_load]
      pickle_load_dump [OF d]
    by (simp add: wf_image_def d)
qed

text \<open>
  Claim C10. \<open>lsb_encode\<close> and \<open>lsb_decode\<close> need an image of exactly three bands.
  For any other number of bands the unpacking of \<open>image.split()\<close> raises
  \<open>ValueError\<close>; in \<open>lsb_decode\<close> that is not an \<open>UnpicklingError\<close>, so it leaves the
  function instead of the empty string being returned. (In \<open>lsb_encode\<close> the payload is
  pickled first: a payload that does not pickle raises before.)
\<close>

theorem not_three_bands_raises:
  assumes "length (image_bands im) \<noteq> 3"
  shows "lsb_decode load im = Inl ValueError
       \<and> (\<forall>bs. dump data = Inr bs \<longrightarrow> lsb_encode dump data im = Inl ValueError)
       \<and> (\<forall>e. dump data = Inl e \<longrightarrow> lsb_encode dump data im = Inl e)"
proof -
  have "length (split im) \<noteq> 3"
    using assms by (simp add: split_def)
  then have s: "(case split im of [red, green, blue] \<Rightarrow> f red green blue | _ \<Rightarrow> c) = c" for f and c :: 'z
    by (auto split: list.splits)
  show ?thesis
    by (auto simp: lsb_decode_def lsb_encode_def s frombytes_def Let_def length_unpackbits)
qed

theorem not_three_bands_raises_witness:
  "lsb_decode pickle_load \<lparr>image_size = (2, 1), image_bands = [[0, 1]]\<rparr> = Inl ValueError
   \<and> lsb_encode pickle_dump PyNone
         \<lparr>image_size = (1, 1), image_bands = [[1], [2], [3], [255]]\<rparr> = Inl ValueError"
  using not_three_bands_raises
      [of "\<lparr>image_size = (2, 1), image_bands = [[0, 1]]\<rparr>" pickle_load pickle_dump PyNone]
    not_three_bands_raises
      [of "\<lparr>image_size = (1, 1), image_bands = [[1], [2], [3], [255]]\<rparr>"
          pickle_load pickle_dump PyNone]
  by (simp add: pickle_dump_def)

subsection \<open>Images that carry no pickle\<close>

lemma lsb_decode_unpickling_error:
  assumes "image_bands im = [r, g, b]"
    and "load (packbits (map (\<lambda>p. p AND 0x1) r)) = Inl UnpicklingError"
  shows "lsb_decode load im = Inr (PyStr [])"
  using assms by (simp add: lsb_decode_rgb)

lemma lsb_decode_other_error:
  assumes "image_bands im = [r, g, b]"
    and "load (packbits (map (\<lambda>p. p AND 0x1) r)) = Inl e" and "e \<noteq> UnpicklingError"
  shows "lsb_decode load im = Inl e"
  using assms by (simp add: lsb_decode_rgb)

text \<open>
  Claim C2 says that \<open>lsb_decode\<close> returns the empty string for every image that carries
  no pickled payload, and never raises. It does so when \<open>load\<close> raises
  \<open>UnpicklingError\<close>, the one exception the handler names. On \<open>plain_image\<close> the bytes
  read from the red channel are \<open>N\<close>, an opcode with no \<open>STOP\<close> behind it: \<open>load\<close>
  raises \<open>EOFError\<close>, and \<open>lsb_decode\<close> passes it on to its caller.
\<close>

theorem lsb_decode_plain_image_raises:
  "lsb_decode pickle_load plain_image = Inl EOFError"
proof -
  have "pickle_load [0x4E] = Inl EOFError"
    by (simp add: pickle_load_def)
  then show ?thesis
    using lsb_decode_other_error
      [of plain_image "[254, 255, 254, 254, 255, 255, 255, 254]"
          "[0, 0, 0, 0, 0, 0, 0, 0]" "[0, 0, 0, 0, 0, 0, 0, 0]" pickle_load EOFError]
    by (simp add: plain_image_def pack_byte_def)
qed

subsection \<open>The alpha mask\<close>

text \<open>
  Claim C8. Every pixel of the mask that \<open>add_watermark\<close> builds (line 62) is at most
  the cap 90, and a pixel of the mask's source (the watermark converted to mode \<open>L\<close>)
  that is not above the cap is in the mask unchanged.
\<close>

theorem mask_capped:
  "length (rgba_watermark_mask rgba_watermark) = length rgba_watermark
   \<and> (\<forall>p \<in> set (rgba_watermark_mask rgba_watermark). p \<le> 90)
   \<and> (\<forall>i < length rgba_watermark.
         convert_L rgba_watermark ! i \<le> 90 \<longrightarrow>
         rgba_watermark_mask rgba_watermark ! i = convert_L rgba_watermark ! i)"
  by (auto simp: rgba_watermark_mask_def point_def convert_L_def min_def)

theorem mask_capped_witness:
  "rgba_watermark_mask [(255, 255, 255, 255), (10, 20, 30, 255)] = [90, 18]
   \<and> convert_L [(255, 255, 255, 255), (10, 20, 30, 255)] = [255, 18]"
  using mask_capped [of "[(255, 255, 255, 255), (10, 20, 30, 255)]"]
  by (simp add: rgba_watermark_mask_def point_def convert_L_def rgb2l_def)

subsection \<open>Rounding to binary64\<close>

lemma bitlen_bounds_rat:
  assumes "0 < a"
  shows "(2::rat) powi (bitlen a - 1) \<le> of_int a" and "of_int a < (2::rat) powi bitlen a"
proof -
  have p: "0 < bitlen a"
    using assms bitlen_eq_zero_iff [of a] bitlen_nonneg [of a] by linarith
  have "(2::int) ^ nat (bitlen a - 1) \<le> a" and "a < 2 ^ nat (bitlen a)"
    using bitlen_bounds [OF assms] by simp_all
  then have "(of_int (2 ^ nat (bitlen a - 1)) :: rat) \<le> of_int a"
    and "(of_int a :: rat) < of_int (2 ^ nat (bitlen a))"
    by (simp_all only: of_int_le_iff of_int_less_iff)
  then show "(2::rat) powi (bitlen a - 1) \<le> of_int a" and "of_int a < (2::rat) powi bitlen a"
    using p by (simp_all add: power_int_nonneg_exp)
qed

lemma ilog2_bounds:
  assumes "0 < q"
  shows "2 powi ilog2 q \<le> q" and "q < 2 powi (ilog2 q + 1)"
proof -
  obtain a b where ab: "quotient_of q = (a, b)"
    by (cases "quotient_of q")
  have b: "0 < b"
    using quotient_of_denom_pos [OF ab] .
  have q: "q = of_int a / of_int b"
    using quotient_of_div [OF ab] .
  have a: "0 < a"
    using assms b by (simp add: q zero_less_divide_iff)
  define k where "k = bitlen a - bitlen b"
  have kdef: "ilog2 q = (if 2 powi k \<le> q then k else k - 1)"
    by (simp add: ilog2_def ab k_def)
  note A = bitlen_bounds_rat [OF a] and B = bitlen_bounds_rat [OF b]
  have bpos: "(0::rat) < of_int b"
    using b by simp
  have up: "q < 2 powi (k + 1)"
  proof -
    have "(2::rat) powi bitlen a = 2 powi (k + 1) * 2 powi (bitlen b - 1)"
      by (simp add: k_def power_int_add [symmetric])
    also have "\<dots> \<le> 2 powi (k + 1) * of_int b"
      using B(1) by (simp add: mult_left_mono)
    finally have "of_int a < 2 powi (k + 1) * (of_int b :: rat)"
      using A(2) by simp
    then show ?thesis
      using bpos by (simp add: q pos_divide_less_eq)
  qed
  have low: "2 powi (k - 1) \<le> q"
  proof -
    have "2 powi (k - 1) * (of_int b :: rat) \<le> 2 powi (k - 1) * 2 powi bitlen b"
      using B(2) by (simp add: mult_left_mono)
    also have "\<dots> = 2 powi (bitlen a - 1)"
      by (simp add: k_def power_int_add [symmetric])
    finally have "2 powi (k - 1) * (of_int b :: rat) \<le> of_int a"
      using A(1) by simp
    then show ?thesis
      using bpos by (simp add: q pos_le_divide_eq)
  qed
  show "2 powi ilog2 q \<le> q"
    using low by (simp add: kdef)
  show "q < 2 powi (ilog2 q + 1)"
    using up by (simp add: kdef not_le)
qed

lemma ilog2_unique:
  assumes "0 < q" and "2 powi e \<le> q" and "q < 2 powi (e + 1)"
  shows "ilog2 q = e"
proof -
  have "(2::rat) powi ilog2 q < 2 powi (e + 1)"
    using ilog2_bounds(1) [OF assms(1)] assms(3) by simp
  then have "ilog2 q < e + 1"
    by (metis not_less power_int_increasing one_le_numeral)
  moreover have "(2::rat) powi e < 2 powi (ilog2 q + 1)"
    using ilog2_bounds(2) [OF assms(1)] assms(2) by simp
  then have "e < ilog2 q + 1"
    by (metis not_less power_int_increasing one_le_numeral)
  ultimately show ?thesis by simp
qed

lemma ilog2_double: "0 < q \<Longrightarrow> ilog2 (2 * q) = ilog2 q + 1"
proof (rule ilog2_unique)
  assume q: "0 < q"
  show "0 < 2 * q" using q by simp
  show "2 powi (ilog2 q + 1) \<le> 2 * q"
    using ilog2_bounds(1) [OF q] by (simp add: power_int_add)
  have "(2::rat) powi (ilog2 q + 1 + 1) = 2 * 2 powi (ilog2 q + 1)"
    by (rule power_int_add_1') simp
  then show "2 * q < 2 powi (ilog2 q + 1 + 1)"
    using ilog2_bounds(2) [OF q] by (simp only:)
qed

lemma round_half_even_ge_floor: "\<lfloor>x\<rfloor> \<le> round_half_even x"
  by (simp add: round_half_even_def Let_def)

lemma rnd_pos:
  assumes "0 < q"
  shows "0 < rnd q"
proof -
  let ?u = "(2::rat) powi (ilog2 q - 52)"
  have u: "0 < ?u" by simp
  have "2 powi ilog2 q / ?u \<le> q / ?u"
    using ilog2_bounds(1) [OF assms] u by (simp add: divide_right_mono)
  moreover have "2 powi ilog2 q / ?u = (2::rat) ^ 52"
    by (simp add: power_int_diff)
  ultimately have "(2::rat) ^ 52 \<le> q / ?u"
    by (simp only:)
  moreover have "(1::rat) \<le> 2 ^ 52"
    by simp
  ultimately have "1 \<le> q / ?u"
    by (rule order_trans [rotated])
  then have "1 \<le> \<lfloor>q / ?u\<rfloor>"
    by (simp add: le_floor_iff)
  then have "0 < round_half_even (q / ?u)"
    using round_half_even_ge_floor [of "q / ?u"] by linarith
  then have "0 < of_int (round_half_even (q / ?u)) * ?u"
    using u by simp
  then show ?thesis
    using assms by (simp add: rnd_def Let_def)
qed

lemma rnd_double: "rnd (2 * q) = 2 * rnd q"
proof (cases "q = 0")
  case True
  then show ?thesis by (simp add: rnd_def)
next
  case False
  then have a: "0 < \<bar>q\<bar>" by simp
  have e: "ilog2 \<bar>2 * q\<bar> = ilog2 \<bar>q\<bar> + 1"
    using ilog2_double [OF a] by (simp add: abs_mult)
  have u: "(2::rat) powi (ilog2 \<bar>q\<bar> + 1 - 52) = 2 * 2 powi (ilog2 \<bar>q\<bar> - 52)"
    using power_int_add_1' [of "2::rat" "ilog2 \<bar>q\<bar> - 52"] by (simp add: algebra_simps)
  have s: "sgn (2 * q) = sgn q"
    by (simp add: sgn_mult)
  have d: "\<bar>2 * q\<bar> / (2 * 2 powi (ilog2 \<bar>q\<bar> - 52)) = \<bar>q\<bar> / 2 powi (ilog2 \<bar>q\<bar> - 52)"
    by (simp add: abs_mult)
  show ?thesis
    using False unfolding rnd_def Let_def e u s d by simp
qed

lemma rnd_half: "rnd (q / 2) = rnd q / 2"
proof -
  have "2 * (q / 2) = q" by simp
  then have "rnd q = 2 * rnd (q / 2)"
    using rnd_double [of "q / 2"] by (simp only:)
  then show ?thesis by simp
qed

subsection \<open>The size of the watermark\<close>

lemma float_of_int_pos: "0 < n \<Longrightarrow> 0 < float_of_int n"
  by (simp add: float_of_int_def rnd_pos)

lemma fquot_pos: "0 < a \<Longrightarrow> 0 < b \<Longrightarrow> 0 < fquot a b"
  by (simp add: fquot_def rnd_pos)

lemma fmul_pos: "0 < a \<Longrightarrow> 0 < b \<Longrightarrow> 0 < fmul a b"
  by (simp add: fmul_def rnd_pos)

lemma fdiv_pos: "0 < b \<Longrightarrow> fdiv a b = Inr (fquot a b)"
  by (simp add: fdiv_def)

lemma int_quot_pos: "0 < a \<Longrightarrow> 0 < b \<Longrightarrow> 0 < int_quot a b"
  by (simp add: int_quot_def rnd_pos)

lemma int_truediv_pos: "0 < b \<Longrightarrow> int_truediv a b = Inr (int_quot a b)"
  by (simp add: int_truediv_def)

lemma fit_constant_pos: "0 < (if c then rnd (1071 / 1000) else rnd (5419 / 1000))"
  by (simp add: rnd_pos)

lemma int_of_float_nonneg: "0 \<le> x \<Longrightarrow> int_of_float x = \<lfloor>x\<rfloor>"
  by (simp add: int_of_float_def)

text \<open>
  With positive sizes every divisor is positive, no division raises, and the steps of
  the code are the steps of the specification up to the watermark scale.
\<close>

lemma new_size_positive:
  assumes "0 < Wb" and "0 < Hb" and "0 < Wo" and "0 < Ho"
  shows "new_size Wb Hb Wo Ho =
           Inr (int_of_float (fmul (float_of_int Wo) (spec_watermark_scale Wb Hb Wo Ho)),
                int_of_float (fmul (float_of_int Ho) (spec_watermark_scale Wb Hb Wo Ho)))"
    and "0 < spec_watermark_scale Wb Hb Wo Ho"
proof -
  let ?ib = "float_of_int Wb" and ?ih = "float_of_int Hb"
  let ?wo = "float_of_int Wo" and ?ho = "float_of_int Ho"
  let ?ti = "int_quot Wb Hb" and ?tw = "int_quot Wo Ho"
  let ?t = "fquot ?tw ?ti"
  let ?c = "if 1 < ?tw then rnd (1071 / 1000) else rnd (5419 / 1000)"
  let ?ss = "fmul ?c ?t"
  let ?ws = "max (fquot ?ib (fmul ?ss ?wo)) (fquot ?ih (fmul ?ss ?ho))"
  note p = float_of_int_pos [OF assms(1)] float_of_int_pos [OF assms(2)]
    float_of_int_pos [OF assms(3)] float_of_int_pos [OF assms(4)]
  have ti: "0 < ?ti" and tw: "0 < ?tw"
    using assms by (simp_all add: int_quot_pos)
  have t: "0 < ?t"
    using ti tw by (simp add: fquot_pos)
  have ss: "0 < ?ss"
    using t fit_constant_pos [of "1 < ?tw"] by (rule fmul_pos [rotated])
  have mx: "0 < fmul ?ss ?wo" and my: "0 < fmul ?ss ?ho"
    using ss p by (simp_all add: fmul_pos)
  have sx: "0 < fquot ?ib (fmul ?ss ?wo)"
    using p(1) mx by (rule fquot_pos)
  then have ws: "0 < ?ws"
    by (simp add: less_max_iff_disj)
  have w: "spec_watermark_scale Wb Hb Wo Ho = ?ws"
    by (simp add: spec_watermark_scale_def Let_def)
  have "new_size Wb Hb Wo Ho = Inr (int_of_float (fmul ?wo ?ws), int_of_float (fmul ?ho ?ws))"
    unfolding new_size_def Let_def
    by (simp only: int_truediv_pos [OF assms(2)] int_truediv_pos [OF assms(4)]
        fdiv_pos [OF ti] fdiv_pos [OF mx] fdiv_pos [OF my] raise_bind_def sum.case)
  then show "new_size Wb Hb Wo Ho =
           Inr (int_of_float (fmul (float_of_int Wo) (spec_watermark_scale Wb Hb Wo Ho)),
                int_of_float (fmul (float_of_int Ho) (spec_watermark_scale Wb Hb Wo Ho)))"
    by (simp only: w)
  show "0 < spec_watermark_scale Wb Hb Wo Ho"
    using ws by (simp only: w)
qed

text \<open>The fitter at three concrete sizes, one rounding at a time.\<close>

lemma new_size_200_200_100_100:
  "new_size 200 200 100 100 = Inr (36, 36)"
  and spec_new_size_rounded_200_200_100_100:
    "spec_new_size_rounded 200 200 100 100 = (37, 37)"
proof -
  have s1: "float_of_int 200 = 200"
    by code_simp
  have s2: "float_of_int 100 = 100"
    by code_simp
  have s3: "int_quot 200 200 = 1"
    by code_simp
  have s4: "int_truediv 200 200 = Inr (1)"
    by (simp add: int_truediv_def s3)
  have s5: "int_quot 100 100 = 1"
    by code_simp
  have s6: "int_truediv 100 100 = Inr (1)"
    by (simp add: int_truediv_def s5)
  have s7: "fquot (1) (1) = 1"
    by code_simp
  have s8: "fdiv (1) (1) = Inr (1)"
    by (simp add: fdiv_def s7)
  have s9: "(1 < (1 :: rat)) = False"
    by simp
  have s10: "rnd (5419 / 1000) = 6101251595180179 / 1125899906842624"
    by code_simp
  have s11: "fmul (6101251595180179 / 1125899906842624) (1) = 6101251595180179 / 1125899906842624"
    by code_simp
  have s12: "fmul (6101251595180179 / 1125899906842624) (100) = 4766602808734515 / 8796093022208"
    by code_simp
  have s13: "fquot (200) (4766602808734515 / 8796093022208) = 831075775488189 / 2251799813685248"
    by code_simp
  have s14: "fdiv (200) (4766602808734515 / 8796093022208) = Inr (831075775488189 / 2251799813685248)"
    by (simp add: fdiv_def s13)
  have s15: "max (831075775488189 / 2251799813685248) (831075775488189 / 2251799813685248 :: rat) = 831075775488189 / 2251799813685248"
    by simp
  have s16: "fmul (100) (831075775488189 / 2251799813685248) = 5194223596801181 / 140737488355328"
    by code_simp
  have s17: "int_of_float (5194223596801181 / 140737488355328) = 36"
    by code_simp
  have s18: "round (5194223596801181 / 140737488355328 :: rat) = 37"
    by code_simp
  show "new_size 200 200 100 100 = Inr (36, 36)"
    unfolding new_size_def
    by (simp only: s1 s2 s3 s4 s5 s6 s7 s8 s9 s10 s11 s12 s13 s14 s15 s16 s17 s18 raise_bind_def Let_def sum.case if_True if_False)
  show "spec_new_size_rounded 200 200 100 100 = (37, 37)"
    unfolding spec_new_size_rounded_def spec_watermark_scale_def
    by (simp only: s1 s2 s3 s4 s5 s6 s7 s8 s9 s10 s11 s12 s13 s14 s15 s16 s17 s18 Let_def if_True if_False)
qed

lemma new_size_1000_1000_100_200:
  "new_size 1000 1000 100 200 = Inr (369, 738)"
proof -
  have s1: "float_of_int 1000 = 1000"
    by code_simp
  have s2: "float_of_int 100 = 100"
    by code_simp
  have s3: "float_of_int 200 = 200"
    by code_simp
  have s4: "int_quot 1000 1000 = 1"
    by code_simp
  have s5: "int_truediv 1000 1000 = Inr (1)"
    by (simp add: int_truediv_def s4)
  have s6: "int_quot 100 200 = 1 / 2"
    by code_simp
  have s7: "int_truediv 100 200 = Inr (1 / 2)"
    by (simp add: int_truediv_def s6)
  have s8: "fquot (1 / 2) (1) = 1 / 2"
    by code_simp
  have s9: "fdiv (1 / 2) (1) = Inr (1 / 2)"
    by (simp add: fdiv_def s8)
  have s10: "(1 < (1 / 2 :: rat)) = False"
    by simp
  have s11: "rnd (5419 / 1000) = 6101251595180179 / 1125899906842624"
    by code_simp
  have s12: "fmul (6101251595180179 / 1125899906842624) (1 / 2) = 6101251595180179 / 2251799813685248"
    by code_simp
  have s13: "fmul (6101251595180179 / 2251799813685248) (100) = 4766602808734515 / 17592186044416"
    by code_simp
  have s14: "fmul (6101251595180179 / 2251799813685248) (200) = 4766602808734515 / 8796093022208"
    by code_simp
  have s15: "fquot (1000) (4766602808734515 / 17592186044416) = 4155378877440945 / 1125899906842624"
    by code_simp
  have s16: "fdiv (1000) (4766602808734515 / 17592186044416) = Inr (4155378877440945 / 1125899906842624)"
    by (simp add: fdiv_def s15)
  have s17: "fquot (1000) (4766602808734515 / 8796093022208) = 4155378877440945 / 2251799813685248"
    by code_simp
  have s18: "fdiv (1000) (4766602808734515 / 8796093022208) = Inr (4155378877440945 / 2251799813685248)"
    by (simp add: fdiv_def s17)
  have s19: "max (4155378877440945 / 1125899906842624) (4155378877440945 / 2251799813685248 :: rat) = 4155378877440945 / 1125899906842624"
    by simp
  have s20: "fmul (100) (4155378877440945 / 1125899906842624) = 6492779496001477 / 17592186044416"
    by code_simp
  have s21: "fmul (200) (4155378877440945 / 1125899906842624) = 6492779496001477 / 8796093022208"
    by code_simp
  have s22: "int_of_float (6492779496001477 / 17592186044416) = 369"
    by code_simp
  have s23: "int_of_float (6492779496001477 / 8796093022208) = 738"
    by code_simp
  show "new_size 1000 1000 100 200 = Inr (369, 738)"
    unfolding new_size_def
    by (simp only: s1 s2 s3 s4 s5 s6 s7 s8 s9 s10 s11 s12 s13 s14 s15 s16 s17 s18 s19 s20 s21 s22 s23 raise_bind_def Let_def sum.case if_True if_False)
qed

lemma new_size_1000_1000_200_200:
  "new_size 1000 1000 200 200 = Inr (184, 184)"
proof -
  have s1: "float_of_int 1000 = 1000"
    by code_simp
  have s2: "float_of_int 200 = 200"
    by code_simp
  have s3: "int_quot 1000 1000 = 1"
    by code_simp
  have s4: "int_truediv 1000 1000 = Inr (1)"
    by (simp add: int_truediv_def s3)
  have s5: "int_quot 200 200 = 1"
    by code_simp
  have s6: "int_truediv 200 200 = Inr (1)"
    by (simp add: int_truediv_def s5)
  have s7: "fquot (1) (1) = 1"
    by code_simp
  have s8: "fdiv (1) (1) = Inr (1)"
    by (simp add: fdiv_def s7)
  have s9: "(1 < (1 :: rat)) = False"
    by simp
  have s10: "rnd (5419 / 1000) = 6101251595180179 / 1125899906842624"
    by code_simp
  have s11: "fmul (6101251595180179 / 1125899906842624) (1) = 6101251595180179 / 1125899906842624"
    by code_simp
  have s12: "fmul (6101251595180179 / 1125899906842624) (200) = 4766602808734515 / 4398046511104"
    by code_simp
  have s13: "fquot (1000) (4766602808734515 / 4398046511104) = 4155378877440945 / 4503599627370496"
    by code_simp
  have s14: "fdiv (1000) (4766602808734515 / 4398046511104) = Inr (4155378877440945 / 4503599627370496)"
    by (simp add: fdiv_def s13)
  have s15: "max (4155378877440945 / 4503599627370496) (4155378877440945 / 4503599627370496 :: rat) = 4155378877440945 / 4503599627370496"
    by simp
  have s16: "fmul (200) (4155378877440945 / 4503599627370496) = 6492779496001477 / 35184372088832"
    by code_simp
  have s17: "int_of_float (6492779496001477 / 35184372088832) = 184"
    by code_simp
  show "new_size 1000 1000 200 200 = Inr (184, 184)"
    unfolding new_size_def
    by (simp only: s1 s2 s3 s4 s5 s6 s7 s8 s9 s10 s11 s12 s13 s14 s15 s16 s17 raise_bind_def Let_def sum.case if_True if_False)
qed

lemma new_size_238_254_16_9:
  "new_size 238 254 16 9 = Inr (222, 125)"
proof -
  have s1: "float_of_int 238 = 238"
    by code_simp
  have s2: "float_of_int 254 = 254"
    by code_simp
  have s3: "float_of_int 16 = 16"
    by code_simp
  have s4: "float_of_int 9 = 9"
    by code_simp
  have s5: "int_quot 238 254 = 8439816624521087 / 9007199254740992"
    by code_simp
  have s6: "int_truediv 238 254 = Inr (8439816624521087 / 9007199254740992)"
    by (simp add: int_truediv_def s5)
  have s7: "int_quot 16 9 = 2001599834386887 / 1125899906842624"
    by code_simp
  have s8: "int_truediv 16 9 = Inr (2001599834386887 / 1125899906842624)"
    by (simp add: int_truediv_def s7)
  have s9: "fquot (2001599834386887 / 1125899906842624) (8439816624521087 / 9007199254740992) = 4272322335582095 / 2251799813685248"
    by code_simp
  have s10: "fdiv (2001599834386887 / 1125899906842624) (8439816624521087 / 9007199254740992) = Inr (4272322335582095 / 2251799813685248)"
    by (simp add: fdiv_def s9)
  have s11: "(1 < (2001599834386887 / 1125899906842624 :: rat)) = True"
    by simp
  have s12: "rnd (1071 / 1000) = 4823355200913801 / 4503599627370496"
    by code_simp
  have s13: "fmul (4823355200913801 / 4503599627370496) (4272322335582095 / 2251799813685248) = 571957152676053 / 281474976710656"
    by code_simp
  have s14: "fmul (571957152676053 / 281474976710656) (16) = 571957152676053 / 17592186044416"
    by code_simp
  have s15: "fmul (571957152676053 / 281474976710656) (9) = 5147614374084477 / 281474976710656"
    by code_simp
  have s16: "fquot (238) (571957152676053 / 17592186044416) = 4121004211191937 / 562949953421312"
    by code_simp
  have s17: "fdiv (238) (571957152676053 / 17592186044416) = Inr (4121004211191937 / 562949953421312)"
    by (simp add: fdiv_def s16)
  have s18: "fquot (254) (5147614374084477 / 281474976710656) = 3909374676536889 / 281474976710656"
    by code_simp
  have s19: "fdiv (254) (5147614374084477 / 281474976710656) = Inr (3909374676536889 / 281474976710656)"
    by (simp add: fdiv_def s18)
  have s20: "max (4121004211191937 / 562949953421312) (3909374676536889 / 281474976710656 :: rat) = 3909374676536889 / 281474976710656"
    by simp
  have s21: "fmul (16) (3909374676536889 / 281474976710656) = 3909374676536889 / 17592186044416"
    by code_simp
  have s22: "fmul (9) (3909374676536889 / 281474976710656) = 125"
    by code_simp
  have s23: "int_of_float (3909374676536889 / 17592186044416) = 222"
    by code_simp
  have s24: "int_of_float (125) = 125"
    by code_simp
  show ?thesis
    unfolding new_size_def
    by (simp only: s1 s2 s3 s4 s5 s6 s7 s8 s9 s10 s11 s12 s13 s14 s15 s16 s17 s18 s19 s20 s21 s22 s23 s24 raise_bind_def Let_def sum.case if_True if_False)
qed

lemma new_size_238_254_48_27:
  "new_size 238 254 48 27 = Inr (222, 124)"
proof -
  have s1: "float_of_int 238 = 238"
    by code_simp
  have s2: "float_of_int 254 = 254"
    by code_simp
  have s3: "float_of_int 48 = 48"
    by code_simp
  have s4: "float_of_int 27 = 27"
    by code_simp
  have s5: "int_quot 238 254 = 8439816624521087 / 9007199254740992"
    by code_simp
  have s6: "int_truediv 238 254 = Inr (8439816624521087 / 9007199254740992)"
    by (simp add: int_truediv_def s5)
  have s7: "int_quot 48 27 = 2001599834386887 / 1125899906842624"
    by code_simp
  have s8: "int_truediv 48 27 = Inr (2001599834386887 / 1125899906842624)"
    by (simp add: int_truediv_def s7)
  have s9: "fquot (2001599834386887 / 1125899906842624) (8439816624521087 / 9007199254740992) = 4272322335582095 / 2251799813685248"
    by code_simp
  have s10: "fdiv (2001599834386887 / 1125899906842624) (8439816624521087 / 9007199254740992) = Inr (4272322335582095 / 2251799813685248)"
    by (simp add: fdiv_def s9)
  have s11: "(1 < (2001599834386887 / 1125899906842624 :: rat)) = True"
    by simp
  have s12: "rnd (1071 / 1000) = 4823355200913801 / 4503599627370496"
    by code_simp
  have s13: "fmul (4823355200913801 / 4503599627370496) (4272322335582095 / 2251799813685248) = 571957152676053 / 281474976710656"
    by code_simp
  have s14: "fmul (571957152676053 / 281474976710656) (48) = 1715871458028159 / 17592186044416"
    by code_simp
  have s15: "fmul (571957152676053 / 281474976710656) (27) = 1930355390281679 / 35184372088832"
    by code_simp
  have s16: "fquot (238) (1715871458028159 / 17592186044416) = 5494672281589249 / 2251799813685248"
    by code_simp
  have s17: "fdiv (238) (1715871458028159 / 17592186044416) = Inr (5494672281589249 / 2251799813685248)"
    by (simp add: fdiv_def s16)
  have s18: "fquot (254) (1930355390281679 / 35184372088832) = 5212499568715851 / 1125899906842624"
    by code_simp
  have s19: "fdiv (254) (1930355390281679 / 35184372088832) = Inr (5212499568715851 / 1125899906842624)"
    by (simp add: fdiv_def s18)
  have s20: "max (5494672281589249 / 2251799813685248) (5212499568715851 / 1125899906842624 :: rat) = 5212499568715851 / 1125899906842624"
    by simp
  have s21: "fmul (48) (5212499568715851 / 1125899906842624) = 488671834567111 / 2199023255552"
    by code_simp
  have s22: "fmul (27) (5212499568715851 / 1125899906842624) = 8796093022207999 / 70368744177664"
    by code_simp
  have s23: "int_of_float (488671834567111 / 2199023255552) = 222"
    by code_simp
  have s24: "int_of_float (8796093022207999 / 70368744177664) = 124"
    by code_simp
  show ?thesis
    unfolding new_size_def
    by (simp only: s1 s2 s3 s4 s5 s6 s7 s8 s9 s10 s11 s12 s13 s14 s15 s16 s17 s18 s19 s20 s21 s22 s23 s24 raise_bind_def Let_def sum.case if_True if_False)
qed

text \<open>
  Claim C7 says that for positive sizes the fitter computes the ratio of the aspect
  ratios, the constant 1.071 for a landscape watermark and 5.419 otherwise, the scale
  size, the watermark scale as the maximum of the two quotients, and then rounds each
  dimension to the nearest integer. The code does all of it but the last: \<open>int(...)\<close>
  (line 59) cuts the fraction off. For a 200 by 200 image and a 100 by 100 watermark the
  product is 36.907...: the code gives 36, the nearest integer is 37.
\<close>

theorem new_size_not_rounded:
  "new_size 200 200 100 100 = Inr (36, 36)
   \<and> spec_new_size_rounded 200 200 100 100 = (37, 37)"
  by (simp add: new_size_200_200_100_100 spec_new_size_rounded_200_200_100_100)

text \<open>
  Claim C7 as the code has it: for positive sizes no division fails, and
  \<open>new_size\<close> is the pair of the two products of step 5, each cut down to the integer
  below it (the products are positive).
\<close>

theorem new_size_truncates:
  assumes "0 < Wb" and "0 < Hb" and "0 < Wo" and "0 < Ho"
  shows "new_size Wb Hb Wo Ho =
           Inr (\<lfloor>fmul (float_of_int Wo) (spec_watermark_scale Wb Hb Wo Ho)\<rfloor>,
                \<lfloor>fmul (float_of_int Ho) (spec_watermark_scale Wb Hb Wo Ho)\<rfloor>)"
proof -
  let ?ws = "spec_watermark_scale Wb Hb Wo Ho"
  have ws: "0 < ?ws"
    using assms by (rule new_size_positive(2))
  have "0 < fmul (float_of_int Wo) ?ws" and "0 < fmul (float_of_int Ho) ?ws"
    using assms(3,4) ws by (simp_all add: fmul_pos float_of_int_pos)
  then have "int_of_float (fmul (float_of_int Wo) ?ws) = \<lfloor>fmul (float_of_int Wo) ?ws\<rfloor>"
    and "int_of_float (fmul (float_of_int Ho) ?ws) = \<lfloor>fmul (float_of_int Ho) ?ws\<rfloor>"
    by (simp_all add: int_of_float_nonneg)
  then show ?thesis
    using new_size_positive(1) [OF assms] by (simp only:)
qed

theorem new_size_truncates_witness:
  "new_size 800 600 1600 400 =
     Inr (\<lfloor>fmul (float_of_int 1600) (spec_watermark_scale 800 600 1600 400)\<rfloor>,
          \<lfloor>fmul (float_of_int 400) (spec_watermark_scale 800 600 1600 400)\<rfloor>)"
  using new_size_truncates [of 800 600 1600 400] by simp

subsection \<open>The size of the watermark as the watermark grows\<close>

lemma float_of_int_double: "float_of_int (2 * n) = 2 * float_of_int n"
  using rnd_double [of "of_int n"] by (simp add: float_of_int_def)

lemma fmul_double_right: "fmul a (2 * b) = 2 * fmul a b"
  using rnd_double [of "a * b"] by (simp add: fmul_def mult.left_commute)

lemma fquot_double_right: "fquot a (2 * b) = fquot a b / 2"
proof -
  have "a / (2 * b) = a / b / 2" by simp
  then show ?thesis
    unfolding fquot_def by (simp only: rnd_half)
qed

lemma fmul_double_half: "fmul (2 * a) (b / 2) = fmul a b"
  by (simp add: fmul_def)

lemma fdiv_double_right:
  "fdiv a (2 * b) = (case fdiv a b of Inl e \<Rightarrow> Inl e | Inr x \<Rightarrow> Inr (x / 2))"
  by (simp add: fdiv_def fquot_double_right)

lemma max_half: "max (a / 2) (b / 2) = max a b / (2::rat)"
  by (simp add: max_def)

lemma new_size_double_overlay:
  "new_size Wb Hb (2 * Wo) (2 * Ho) = new_size Wb Hb Wo Ho"
proof -
  have e: "int_truediv (2 * a) (2 * b) = int_truediv a b" for a b
    by (simp add: int_truediv_def int_quot_def)
  show ?thesis
    unfolding new_size_def Let_def
    apply (simp only: float_of_int_double e)
    apply (simp only: fmul_double_right fdiv_double_right)
    apply (simp add: raise_bind_def max_half fmul_double_half split: sum.splits)
    done
qed

lemma new_size_scaled_overlay:
  "new_size Wb Hb (2 ^ k * Wo) (2 ^ k * Ho) = new_size Wb Hb Wo Ho"
proof (induction k)
  case 0
  show ?case by simp
next
  case (Suc k)
  have "new_size Wb Hb (2 ^ Suc k * Wo) (2 ^ Suc k * Ho)
      = new_size Wb Hb (2 * (2 ^ k * Wo)) (2 * (2 ^ k * Ho))"
    by (simp add: mult.assoc)
  also have "\<dots> = new_size Wb Hb (2 ^ k * Wo) (2 ^ k * Ho)"
    by (rule new_size_double_overlay)
  finally show ?case
    using Suc by simp
qed

text \<open>
  Claim C9 says that for a fixed image the area of \<open>new_size\<close> never shrinks when the
  watermark grows in both dimensions. It shrinks when the growth changes the proportions:
  on a 1000 by 1000 image a 100 by 200 watermark gets 369 by 738, and the larger 200 by
  200 watermark gets 184 by 184. It shrinks even when the watermark grows in proportion:
  on a 238 by 254 image a 16 by 9 watermark gets 222 by 125, and the three times larger
  48 by 27 watermark gets 222 by 124, as the roundings of the float operations fall
  differently.
\<close>

theorem new_size_area_not_monotone:
  "new_size 1000 1000 100 200 = Inr (369, 738)
   \<and> new_size 1000 1000 200 200 = Inr (184, 184)
   \<and> (100 :: int) \<le> 200 \<and> (200 :: int) \<le> 200
   \<and> area (184, 184) < area (369, 738)
   \<and> new_size 238 254 16 9 = Inr (222, 125)
   \<and> new_size 238 254 48 27 = Inr (222, 124)
   \<and> (16 :: int) \<le> 48 \<and> (9 :: int) \<le> 27 \<and> (48 :: int) = 3 * 16 \<and> (27 :: int) = 3 * 9
   \<and> area (222, 124) < area (222, 125)"
  using new_size_1000_1000_100_200 new_size_1000_1000_200_200
    new_size_238_254_16_9 new_size_238_254_48_27
  by (simp add: area_def)

text \<open>
  Claim C9 as the code has it: the area is not monotone, but a watermark with both
  dimensions multiplied by the same power of two gets exactly the \<open>new_size\<close> of the
  original watermark (a factor that is a power of two passes through every rounding),
  so along such growth the area stays the same. That size is the one of claim C7: the
  two products with the watermark scale, each cut down to the integer below.
\<close>

theorem new_size_power_of_two_overlay:
  assumes "0 < Wb" and "0 < Hb" and "0 < Wo" and "0 < Ho"
  shows "new_size Wb Hb (2 ^ k * Wo) (2 ^ k * Ho)
           = Inr (\<lfloor>fmul (float_of_int Wo) (spec_watermark_scale Wb Hb Wo Ho)\<rfloor>,
                  \<lfloor>fmul (float_of_int Ho) (spec_watermark_scale Wb Hb Wo Ho)\<rfloor>)
       \<and> new_size Wb Hb (2 ^ k * Wo) (2 ^ k * Ho) = new_size Wb Hb Wo Ho
       \<and> (\<forall>s1 s2. new_size Wb Hb Wo Ho = Inr s1
              \<and> new_size Wb Hb (2 ^ k * Wo) (2 ^ k * Ho) = Inr s2 \<longrightarrow> area s2 = area s1)"
proof -
  let ?ws = "spec_watermark_scale Wb Hb Wo Ho"
  have same: "new_size Wb Hb (2 ^ k * Wo) (2 ^ k * Ho) = new_size Wb Hb Wo Ho"
    by (rule new_size_scaled_overlay)
  have ws: "0 < ?ws"
    using assms by (rule new_size_positive(2))
  have "0 < fmul (float_of_int Wo) ?ws" and "0 < fmul (float_of_int Ho) ?ws"
    using assms(3,4) ws by (simp_all add: fmul_pos float_of_int_pos)
  then have "int_of_float (fmul (float_of_int Wo) ?ws) = \<lfloor>fmul (float_of_int Wo) ?ws\<rfloor>"
    and "int_of_float (fmul (float_of_int Ho) ?ws) = \<lfloor>fmul (float_of_int Ho) ?ws\<rfloor>"
    by (simp_all add: int_of_float_nonneg)
  then have "new_size Wb Hb Wo Ho
           = Inr (\<lfloor>fmul (float_of_int Wo) ?ws\<rfloor>, \<lfloor>fmul (float_of_int Ho) ?ws\<rfloor>)"
    using new_size_positive(1) [OF assms] by (simp only:)
  then show ?thesis
    using same by simp
qed

theorem new_size_power_of_two_overlay_witness:
  "new_size 238 254 (2 ^ 1 * 16) (2 ^ 1 * 9) = new_size 238 254 16 9
   \<and> new_size 238 254 (2 ^ 1 * 16) (2 ^ 1 * 9) = Inr (222, 125)"
proof -
  have p: "(0::int) < 238" "(0::int) < 254" "(0::int) < 16" "(0::int) < 9"
    by simp_all
  note t = new_size_power_of_two_overlay [OF p, of 1]
  have e: "new_size 238 254 (2 ^ 1 * 16) (2 ^ 1 * 9) = new_size 238 254 16 9"
    by (rule t [THEN conjunct2, THEN conjunct1])
  show ?thesis
    by (simp only: e new_size_238_254_16_9 simp_thms)
qed

end
